theory Spec2Isabelle
  imports Main "HOL-Library.Sublist"
begin

section \<open>Data model of \<^verbatim>\<open>youtube_dl_gui/dlthread.py\<close>\<close>

text \<open>
  An item of \<^verbatim>\<open>urls_list\<close> is a Python dictionary with the two keys
  \<^verbatim>\<open>'url'\<close> and \<^verbatim>\<open>'index'\<close> (docstring of \<^verbatim>\<open>DownloadManager\<close>).
\<close>

record item =
  url :: string
  index :: int

text \<open>
  The dictionary the downloader hands to \<^verbatim>\<open>Worker._data_hook\<close>. Only the keys the
  module reads or writes are fields; every other key the downloader defines lives in the
  extension part of the record. A value that is \<^verbatim>\<open>None\<close> in Python is \<open>None\<close> here;
  \<open>data_index\<close> is the key \<^verbatim>\<open>'index'\<close>, which the downloader does not set.
\<close>

record status_event =
  status :: "string option"
  playlist_index :: "string option"
  playlist_size :: "string option"
  data_index :: "int option"

text \<open>
  Modelled from the spec: the outcome codes of \<^verbatim>\<open>YoutubeDLDownloader\<close> (the module
  \<^verbatim>\<open>downloaders\<close> is not part of the sources). The spec lists
  \<^verbatim>\<open>OK, ALREADY_EXISTS, ERROR, WARNING, STOPPED, ...\<close>; \<open>OTHER\<close> stands for the ones it elides.
\<close>

datatype ret_code = OK | ALREADY | ERROR | WARNING | STOPPED | OTHER nat

datatype error = TypeError | IndexError

text \<open>
  Where a worker thread stands in \<^verbatim>\<open>Worker.run\<close>:
  \<^item> \<open>W_while\<close>: about to test \<^verbatim>\<open>while self._running\<close>;
  \<^item> \<open>W_if\<close>: about to test \<^verbatim>\<open>if self._url is not None\<close>;
  \<^item> \<open>W_download\<close>: inside \<^verbatim>\<open>self._downloader.download(self._url, options)\<close>;
  \<^item> \<open>W_inc_load\<close>, \<open>W_inc_store v\<close>: inside \<^verbatim>\<open>self._successful += 1\<close>, before reading
    the counter and before writing \<open>v + 1\<close> back (the statement is a read followed by a write);
  \<^item> \<open>W_reset\<close>: about to run \<^verbatim>\<open>self._url = None\<close>;
  \<^item> \<open>W_sleep\<close>: in \<^verbatim>\<open>time.sleep(self.WAIT_TIME)\<close>;
  \<^item> \<open>W_dead\<close>: \<^verbatim>\<open>run\<close> has returned, the thread is over.
\<close>

datatype wpc = W_while | W_if | W_download | W_inc_load | W_inc_store int | W_reset | W_sleep | W_dead

text \<open>
  A \<^verbatim>\<open>Worker\<close> object: the attributes \<^verbatim>\<open>_running\<close>, \<^verbatim>\<open>_url\<close>, \<^verbatim>\<open>_index\<close>, the
  position of its thread, and the number of \<^verbatim>\<open>stop()\<close> requests its downloader has received.
\<close>

record worker =
  w_running :: bool
  w_url :: "string option"
  w_index :: int
  w_pc :: wpc
  w_stops :: nat

section \<open>The methods of \<^verbatim>\<open>Worker\<close>\<close>

definition init_worker :: worker where
  "init_worker = \<lparr>w_running = True, w_url = None, w_index = - 1, w_pc = W_while, w_stops = 0\<rparr>"

definition set_url :: "worker \<Rightarrow> item \<Rightarrow> worker" where
  "set_url w it = w\<lparr>w_url := Some (url it)\<rparr>"

definition set_index :: "worker \<Rightarrow> item \<Rightarrow> worker" where
  "set_index w it = w\<lparr>w_index := index it\<rparr>"

definition download :: "worker \<Rightarrow> item \<Rightarrow> worker" where
  "download w it = set_index (set_url w it) it"

definition stop_download :: "worker \<Rightarrow> worker" where
  "stop_download w = w\<lparr>w_stops := Suc (w_stops w)\<rparr>"

definition close :: "worker \<Rightarrow> worker" where
  "close w = w\<lparr>w_running := False, w_stops := Suc (w_stops w)\<rparr>"

definition available :: "worker \<Rightarrow> bool" where
  "available w = (w_url w = None)"

definition reset :: "worker \<Rightarrow> worker" where
  "reset w = w\<lparr>w_url := None\<rparr>"

text \<open>\<^verbatim>\<open>Worker._talk_to_gui\<close>: the result is the dictionary published on \<^verbatim>\<open>'dlworker'\<close>.\<close>

definition worker_talk_to_gui :: "worker \<Rightarrow> 'a status_event_scheme \<Rightarrow> 'a status_event_scheme" where
  "worker_talk_to_gui w data = data\<lparr>data_index := Some (w_index w)\<rparr>"

text \<open>
  \<^verbatim>\<open>Worker._data_hook\<close>. The guard tests \<^verbatim>\<open>data['status']\<close> and
  \<^verbatim>\<open>data['playlist_index']\<close> only; \<^verbatim>\<open>playlist_info += data['playlist_size']\<close> raises
  \<^verbatim>\<open>TypeError\<close> on \<^verbatim>\<open>None\<close>, before \<^verbatim>\<open>data['status']\<close> is changed and before anything
  is published. \<open>Inr\<close> holds the dictionary that is published.
\<close>

definition data_hook :: "worker \<Rightarrow> 'a status_event_scheme \<Rightarrow> error + 'a status_event_scheme" where
  "data_hook w data =
     (case (status data, playlist_index data) of
        (Some st, Some pidx) \<Rightarrow>
          (case playlist_size data of
             None \<Rightarrow> Inl TypeError
           | Some psize \<Rightarrow>
               Inr (worker_talk_to_gui w (data\<lparr>status := Some (st @ ('' '' @ pidx @ ''/'' @ psize))\<rparr>)))
      | _ \<Rightarrow> Inr (worker_talk_to_gui w data))"

section \<open>The \<^verbatim>\<open>DownloadManager\<close> and its threads\<close>

text \<open>
  Where the manager thread stands in \<^verbatim>\<open>DownloadManager.run\<close>:
  \<^item> \<open>M_start\<close>: before \<^verbatim>\<open>self._check_youtubedl()\<close> and the first reading of the clock;
  \<^item> \<open>M_while\<close>: about to test \<^verbatim>\<open>while self._running\<close>;
  \<^item> \<open>M_for i\<close>: at worker \<open>i\<close> of the dispatch \<^verbatim>\<open>for\<close>, about to test
    \<^verbatim>\<open>worker.available() and self.urls_list\<close>;
  \<^item> \<open>M_pop i\<close>: about to run \<^verbatim>\<open>self.urls_list.pop(0)\<close>;
  \<^item> \<open>M_url i it\<close>, \<open>M_index i it\<close>: inside \<^verbatim>\<open>worker.download(it)\<close>, before
    \<^verbatim>\<open>self._url = item['url']\<close> and before \<^verbatim>\<open>self._index = item['index']\<close>;
  \<^item> \<open>M_sleep\<close>: in \<^verbatim>\<open>time.sleep(self.WAIT_TIME)\<close>;
  \<^item> \<open>M_break\<close>: about to test \<^verbatim>\<open>not self.urls_list and self._jobs_done()\<close>;
  \<^item> \<open>M_close i\<close>, \<open>M_join i\<close>: at worker \<open>i\<close> of the clean-up \<^verbatim>\<open>for\<close>, before
    \<^verbatim>\<open>worker.close()\<close> and in \<^verbatim>\<open>worker.join()\<close>;
  \<^item> \<open>M_time\<close>: about to finalise \<^verbatim>\<open>self._time_it_took\<close>;
  \<^item> \<open>M_signal\<close>: about to test \<^verbatim>\<open>if not self._running\<close> and publish the terminal signal;
  \<^item> \<open>M_done\<close>: \<^verbatim>\<open>run\<close> has returned;
  \<^item> \<open>M_crashed\<close>: \<^verbatim>\<open>pop(0)\<close> raised \<^verbatim>\<open>IndexError\<close> and ended the thread.
\<close>

datatype mpc =
    M_start | M_while | M_for nat | M_pop nat | M_url nat item | M_index nat item
  | M_sleep | M_break | M_close nat | M_join nat | M_time | M_signal | M_done | M_crashed

text \<open>How the \<^verbatim>\<open>while\<close> loop of \<^verbatim>\<open>run\<close> was left: its condition was false, or \<^verbatim>\<open>break\<close>.\<close>

datatype loop_exit = By_stop | By_completion

text \<open>
  The \<^verbatim>\<open>DownloadManager\<close> object with its attributes (\<open>running\<close> is \<^verbatim>\<open>_running\<close>,
  \<open>successful\<close> is \<^verbatim>\<open>_successful\<close>, \<open>time_it_took\<close> is \<^verbatim>\<open>_time_it_took\<close>, \<open>workers\<close>
  is \<^verbatim>\<open>_workers\<close>) and the position \<open>pc\<close> of its thread, together with what surrounds it:
  \<^item> \<open>clock\<close>: what \<^verbatim>\<open>time.time()\<close> returns, in ticks;
  \<^item> \<open>signals\<close>: the strings published on \<^verbatim>\<open>'dlmanager'\<close>, in the order of the
    \<^verbatim>\<open>CallAfter\<close> calls;
  \<^item> \<open>stop_calls\<close>: the calls of \<^verbatim>\<open>stop_downloads\<close> that have published
    \<^verbatim>\<open>'closing'\<close> and not yet run \<^verbatim>\<open>self._running = False\<close>;
  and four history fields that no step reads: \<open>assigned\<close> (each \<^verbatim>\<open>self._url = item['url']\<close>
  with the worker's position), \<open>outcomes\<close> (each code returned by a downloader),
  \<open>resets\<close> (how often a worker ran \<^verbatim>\<open>self._url = None\<close>), \<open>left_by\<close> (how the loop
  was left).
\<close>

record manager =
  urls_list :: "item list"
  running :: bool
  successful :: int
  time_it_took :: int
  workers :: "worker list"
  pc :: mpc
  clock :: int
  signals :: "string list"
  stop_calls :: nat
  assigned :: "(nat \<times> item) list"
  outcomes :: "(nat \<times> ret_code) list"
  resets :: nat
  left_by :: "loop_exit option"

definition WORKERS_NUMBER :: nat where
  "WORKERS_NUMBER = 3"

text \<open>
  \<^verbatim>\<open>_init_workers\<close> builds one \<^verbatim>\<open>Worker\<close> for each \<^verbatim>\<open>i in xrange(self.WORKERS_NUMBER)\<close>;
  the pool size is the parameter \<open>n\<close>, so that a subclass overriding the class attribute is covered.
\<close>

definition init_workers :: "nat \<Rightarrow> worker list" where
  "init_workers n = map (\<lambda>i. init_worker) [0..<n]"

text \<open>
  \<^verbatim>\<open>DownloadManager.__init__\<close>. \<^verbatim>\<open>Worker.__init__\<close> and the last line of the constructor
  start the threads, so every thread stands at the top of its \<^verbatim>\<open>run\<close>.
\<close>

definition init_manager :: "nat \<Rightarrow> item list \<Rightarrow> manager" where
  "init_manager n urls =
     \<lparr>urls_list = urls, running = True, successful = 0, time_it_took = 0,
      workers = init_workers n, pc = M_start, clock = 0, signals = [], stop_calls = 0,
      assigned = [], outcomes = [], resets = 0, left_by = None\<rparr>"

definition DownloadManager :: "item list \<Rightarrow> manager" where
  "DownloadManager urls = init_manager WORKERS_NUMBER urls"

definition manager_talk_to_gui :: "string \<Rightarrow> manager \<Rightarrow> manager" where
  "manager_talk_to_gui data s = s\<lparr>signals := signals s @ [data]\<rparr>"

definition jobs_done :: "manager \<Rightarrow> bool" where
  "jobs_done s = list_all available (workers s)"

definition active :: "manager \<Rightarrow> nat" where
  "active s = length (filter (\<lambda>w. \<not> available w) (workers s)) + length (urls_list s)"

text \<open>
  \<^verbatim>\<open>increase_succ\<close>, on the value of the counter it has read. \<^verbatim>\<open>self._successful += 1\<close>
  is a read followed by a write, and another thread can run between the two: a worker
  thread reads the counter at \<open>W_inc_load\<close> and at \<open>W_inc_store v\<close> writes what
  \<open>increase_succ\<close> makes of the value \<open>v\<close> it has read.
\<close>

definition increase_succ :: "manager \<Rightarrow> manager" where
  "increase_succ s = s\<lparr>successful := successful s + 1\<rparr>"

definition add_url :: "item \<Rightarrow> manager \<Rightarrow> manager" where
  "add_url it s = s\<lparr>urls_list := urls_list s @ [it]\<rparr>"

text \<open>
  \<^verbatim>\<open>stop_downloads\<close> is two steps of the calling thread: the \<^verbatim>\<open>'closing'\<close> signal, then
  \<^verbatim>\<open>self._running = False\<close> with the \<^verbatim>\<open>stop_download()\<close> of every worker (which
  reaches the downloaders only).
\<close>

definition stop_begin :: "manager \<Rightarrow> manager" where
  "stop_begin s = (manager_talk_to_gui ''closing'' s)\<lparr>stop_calls := Suc (stop_calls s)\<rparr>"

definition stop_end :: "manager \<Rightarrow> manager" where
  "stop_end s =
     (if stop_calls s = 0 then s
      else s\<lparr>running := False, workers := map stop_download (workers s),
              stop_calls := stop_calls s - 1\<rparr>)"

text \<open>
  One step of the manager thread. \<^verbatim>\<open>worker.join()\<close> returns only once the worker's thread
  is over: until then the step changes nothing. The indices \<open>i\<close> stand for the loop
  variable \<^verbatim>\<open>worker\<close>, an object of \<^verbatim>\<open>self._workers\<close>.

  A step is one statement of the source, with three exceptions. The tests
  \<^verbatim>\<open>worker.available() and self.urls_list\<close> and
  \<^verbatim>\<open>not self.urls_list and self._jobs_done()\<close> read the queue and the \<^verbatim>\<open>_url\<close> of the
  workers in one step: no other thread makes an idle worker busy or takes an item from the
  queue, so what the first test finds true stays true until the manager acts on it.
  \<^verbatim>\<open>worker.close()\<close> is one step: its second statement reaches the downloader only.
\<close>

definition mgr_step :: "manager \<Rightarrow> manager" where
  "mgr_step s =
     (case pc s of
        M_start \<Rightarrow> s\<lparr>time_it_took := clock s, pc := M_while\<rparr>
      | M_while \<Rightarrow>
          (if running s then s\<lparr>pc := M_for 0\<rparr>
           else s\<lparr>pc := M_close 0, left_by := Some By_stop\<rparr>)
      | M_for i \<Rightarrow>
          (if i < length (workers s) then
             (if available (workers s ! i) \<and> urls_list s \<noteq> [] then s\<lparr>pc := M_pop i\<rparr>
              else s\<lparr>pc := M_for (Suc i)\<rparr>)
           else s\<lparr>pc := M_sleep\<rparr>)
      | M_pop i \<Rightarrow>
          (case urls_list s of
             [] \<Rightarrow> s\<lparr>pc := M_crashed\<rparr>
           | it # rest \<Rightarrow> s\<lparr>urls_list := rest, pc := M_url i it\<rparr>)
      | M_url i it \<Rightarrow>
          s\<lparr>workers := (workers s)[i := set_url (workers s ! i) it],
            pc := M_index i it, assigned := assigned s @ [(i, it)]\<rparr>
      | M_index i it \<Rightarrow>
          s\<lparr>workers := (workers s)[i := set_index (workers s ! i) it], pc := M_for (Suc i)\<rparr>
      | M_sleep \<Rightarrow> s\<lparr>pc := M_break\<rparr>
      | M_break \<Rightarrow>
          (if urls_list s = [] \<and> jobs_done s
           then s\<lparr>pc := M_close 0, left_by := Some By_completion\<rparr>
           else s\<lparr>pc := M_while\<rparr>)
      | M_close i \<Rightarrow>
          (if i < length (workers s)
           then s\<lparr>workers := (workers s)[i := close (workers s ! i)], pc := M_join i\<rparr>
           else s\<lparr>pc := M_time\<rparr>)
      | M_join i \<Rightarrow>
          (if w_pc (workers s ! i) = W_dead then s\<lparr>pc := M_close (Suc i)\<rparr> else s)
      | M_time \<Rightarrow> s\<lparr>time_it_took := clock s - time_it_took s, pc := M_signal\<rparr>
      | M_signal \<Rightarrow>
          (if \<not> running s then (manager_talk_to_gui ''closed'' s)\<lparr>pc := M_done\<rparr>
           else (manager_talk_to_gui ''finished'' s)\<lparr>pc := M_done\<rparr>)
      | M_done \<Rightarrow> s
      | M_crashed \<Rightarrow> s)"

text \<open>
  One step of the thread of worker \<open>i\<close> in \<^verbatim>\<open>Worker.run\<close>. Inside the downloader the
  thread waits for the outcome, which \<open>ret_step\<close> delivers; a call that never returns is
  a run without that \<open>Ret\<close>. The options parser and the downloader are outside this
  module: \<^verbatim>\<open>self._options_parser.parse\<close> is part of the step into \<open>W_download\<close>.
\<close>

definition wrk_step :: "nat \<Rightarrow> manager \<Rightarrow> manager" where
  "wrk_step i s =
     (if i < length (workers s) then
        (let w = workers s ! i in
         case w_pc w of
           W_while \<Rightarrow>
             s\<lparr>workers := (workers s)[i := w\<lparr>w_pc := (if w_running w then W_if else W_dead)\<rparr>]\<rparr>
         | W_if \<Rightarrow>
             s\<lparr>workers := (workers s)[i := w\<lparr>w_pc := (if w_url w \<noteq> None then W_download else W_sleep)\<rparr>]\<rparr>
         | W_download \<Rightarrow> s
         | W_inc_load \<Rightarrow> s\<lparr>workers := (workers s)[i := w\<lparr>w_pc := W_inc_store (successful s)\<rparr>]\<rparr>
         | W_inc_store v \<Rightarrow>
             (increase_succ (s\<lparr>successful := v\<rparr>))\<lparr>workers := (workers s)[i := w\<lparr>w_pc := W_reset\<rparr>]\<rparr>
         | W_reset \<Rightarrow>
             s\<lparr>workers := (workers s)[i := (reset w)\<lparr>w_pc := W_sleep\<rparr>], resets := Suc (resets s)\<rparr>
         | W_sleep \<Rightarrow> s\<lparr>workers := (workers s)[i := w\<lparr>w_pc := W_while\<rparr>]\<rparr>
         | W_dead \<Rightarrow> s)
      else s)"

text \<open>
  The downloader of worker \<open>i\<close> returns \<open>rc\<close>; the worker tests
  \<^verbatim>\<open>ret_code == YoutubeDLDownloader.OK or ret_code == YoutubeDLDownloader.ALREADY\<close>.
\<close>

definition ret_step :: "nat \<Rightarrow> ret_code \<Rightarrow> manager \<Rightarrow> manager" where
  "ret_step i rc s =
     (if i < length (workers s) \<and> w_pc (workers s ! i) = W_download then
        s\<lparr>workers := (workers s)[i := (workers s ! i)
              \<lparr>w_pc := (if rc = OK \<or> rc = ALREADY then W_inc_load else W_reset)\<rparr>],
          outcomes := outcomes s @ [(i, rc)]\<rparr>
      else s)"

text \<open>
  What can happen next: a step of the manager thread, of a worker thread, the return of a
  downloader, a call of \<^verbatim>\<open>stop_downloads\<close> or \<^verbatim>\<open>add_url\<close> from another thread, or
  the clock moving on.
\<close>

datatype action = Mgr | Wrk nat | Ret nat ret_code | Stop_begin | Stop_end | Add item | Tick

fun step :: "action \<Rightarrow> manager \<Rightarrow> manager" where
  "step Mgr s = mgr_step s"
| "step (Wrk i) s = wrk_step i s"
| "step (Ret i rc) s = ret_step i rc s"
| "step Stop_begin s = stop_begin s"
| "step Stop_end s = stop_end s"
| "step (Add it) s = add_url it s"
| "step Tick s = s\<lparr>clock := clock s + 1\<rparr>"

definition exec :: "action list \<Rightarrow> manager \<Rightarrow> manager" where
  "exec acts s = foldl (\<lambda>s a. step a s) s acts"

section \<open>The progress callback\<close>

text \<open>
  C9: for every event whose status and playlist position are present and whose playlist
  size is absent, the enrichment reaches its error branch: the concatenation of the absent
  size raises, and nothing is forwarded.
\<close>

theorem data_hook_absent_size_raises:
  "status d \<noteq> None \<Longrightarrow> playlist_index d \<noteq> None \<Longrightarrow> playlist_size d = None
     \<Longrightarrow> data_hook w d = Inl TypeError"
  by (auto simp: data_hook_def)

theorem data_hook_absent_size_raises_witness:
  "data_hook init_worker
     \<lparr>status = Some ''Downloading'', playlist_index = Some ''2'', playlist_size = None,
      data_index = None\<rparr> = Inl TypeError"
  using data_hook_absent_size_raises
    [of "\<lparr>status = Some ''Downloading'', playlist_index = Some ''2'', playlist_size = None,
          data_index = None\<rparr>" init_worker]
  by simp

section \<open>Runs\<close>

lemma exec_Nil [simp]: "exec [] s = s"
  by (simp add: exec_def)

lemma exec_snoc [simp]: "exec (acts @ [a]) s = step a (exec acts s)"
  by (simp add: exec_def)

lemma exec_append: "exec (xs @ ys) s = exec ys (exec xs s)"
  by (simp add: exec_def)


lemma wrk_step_alt:
  "wrk_step i s =
     (if i < length (workers s) then
        (let w = workers s ! i in
         case w_pc w of
           W_while \<Rightarrow>
             s\<lparr>workers := (workers s)[i := w\<lparr>w_pc := (if w_running w then W_if else W_dead)\<rparr>]\<rparr>
         | W_if \<Rightarrow>
             s\<lparr>workers := (workers s)[i := w\<lparr>w_pc := (if w_url w \<noteq> None then W_download else W_sleep)\<rparr>]\<rparr>
         | W_download \<Rightarrow> s
         | W_inc_load \<Rightarrow> s\<lparr>workers := (workers s)[i := w\<lparr>w_pc := W_inc_store (successful s)\<rparr>]\<rparr>
         | W_inc_store v \<Rightarrow> s\<lparr>successful := v + 1, workers := (workers s)[i := w\<lparr>w_pc := W_reset\<rparr>]\<rparr>
         | W_reset \<Rightarrow>
             s\<lparr>workers := (workers s)[i := (reset w)\<lparr>w_pc := W_sleep\<rparr>], resets := Suc (resets s)\<rparr>
         | W_sleep \<Rightarrow> s\<lparr>workers := (workers s)[i := w\<lparr>w_pc := W_while\<rparr>]\<rparr>
         | W_dead \<Rightarrow> s)
      else s)"
  by (simp add: wrk_step_def increase_succ_def Let_def split: wpc.splits)

text \<open>The two steps of the manager inside \<^verbatim>\<open>worker.download(it)\<close> amount to \<open>download\<close>.\<close>

lemma download_two_steps:
  "pc s = M_url i it \<Longrightarrow> i < length (workers s) \<Longrightarrow>
     workers (exec [Mgr, Mgr] s) = (workers s)[i := download (workers s ! i) it]"
  by (simp add: exec_def mgr_step_def download_def)

text \<open>The two steps of a worker inside \<^verbatim>\<open>increase_succ\<close> amount to \<open>increase_succ\<close>.\<close>

lemma increase_succ_two_steps:
  "i < length (workers s) \<Longrightarrow> w_pc (workers s ! i) = W_inc_load \<Longrightarrow>
     successful (exec [Wrk i, Wrk i] s) = successful (increase_succ s)"
  by (simp add: exec_def wrk_step_alt Let_def increase_succ_def)

section \<open>The pool never holds more items than it has workers\<close>

text \<open>The workers that hold an item: \<^verbatim>\<open>available()\<close> is false.\<close>

definition busy_count :: "worker list \<Rightarrow> nat" where
  "busy_count ws = length (filter (\<lambda>w. \<not> available w) ws)"

text \<open>The positions of \<^verbatim>\<open>Worker.run\<close> between the test of \<^verbatim>\<open>self._url\<close> and its reset.\<close>

fun in_job :: "wpc \<Rightarrow> bool" where
  "in_job W_download = True"
| "in_job W_inc_load = True"
| "in_job (W_inc_store v) = True"
| "in_job W_reset = True"
| "in_job W_while = False"
| "in_job W_if = False"
| "in_job W_sleep = False"
| "in_job W_dead = False"

definition pc_ok :: "manager \<Rightarrow> bool" where
  "pc_ok s \<longleftrightarrow>
     (\<forall>i. pc s = M_pop i \<longrightarrow> i < length (workers s) \<and> available (workers s ! i) \<and> urls_list s \<noteq> []) \<and>
     (\<forall>i it. pc s = M_url i it \<longrightarrow> i < length (workers s) \<and> available (workers s ! i)) \<and>
     (\<forall>i it. pc s = M_index i it \<longrightarrow> i < length (workers s)) \<and>
     pc s \<noteq> M_crashed"

lemma wrk_step_frame [simp]:
  "pc (wrk_step i s) = pc s" "urls_list (wrk_step i s) = urls_list s"
  "signals (wrk_step i s) = signals s" "running (wrk_step i s) = running s"
  "assigned (wrk_step i s) = assigned s" "left_by (wrk_step i s) = left_by s"
  "stop_calls (wrk_step i s) = stop_calls s" "outcomes (wrk_step i s) = outcomes s"
  "length (workers (wrk_step i s)) = length (workers s)"
  by (auto simp: wrk_step_alt Let_def split: wpc.splits)

lemma ret_step_frame [simp]:
  "pc (ret_step i rc s) = pc s" "urls_list (ret_step i rc s) = urls_list s"
  "signals (ret_step i rc s) = signals s" "running (ret_step i rc s) = running s"
  "assigned (ret_step i rc s) = assigned s" "left_by (ret_step i rc s) = left_by s"
  "stop_calls (ret_step i rc s) = stop_calls s" "successful (ret_step i rc s) = successful s"
  "resets (ret_step i rc s) = resets s"
  "length (workers (ret_step i rc s)) = length (workers s)"
  by (auto simp: ret_step_def)

definition pool_inv :: "nat \<Rightarrow> manager \<Rightarrow> bool" where
  "pool_inv n s \<longleftrightarrow>
     length (workers s) = n \<and>
     length (assigned s) = resets s + busy_count (workers s) \<and>
     pc_ok s \<and>
     list_all (\<lambda>w. in_job (w_pc w) \<longrightarrow> \<not> available w) (workers s)"

lemma busy_count_update:
  "i < length ws \<Longrightarrow>
   busy_count (ws[i := w]) + (if available (ws ! i) then 0 else 1) =
   busy_count ws + (if available w then 0 else 1)"
proof (induction ws arbitrary: i)
  case Nil
  then show ?case by simp
next
  case (Cons a ws)
  show ?case
  proof (cases i)
    case 0
    then show ?thesis by (simp add: busy_count_def)
  next
    case (Suc j)
    with Cons.prems have "j < length ws" by simp
    from Cons.IH [OF this] Suc show ?thesis by (auto simp: busy_count_def split: if_splits)
  qed
qed

lemma busy_count_same:
  "i < length ws \<Longrightarrow> available w = available (ws ! i) \<Longrightarrow> busy_count (ws[i := w]) = busy_count ws"
  using busy_count_update [of i ws w] by (simp split: if_splits)

lemma busy_count_more:
  "i < length ws \<Longrightarrow> available (ws ! i) \<Longrightarrow> \<not> available w \<Longrightarrow> busy_count (ws[i := w]) = Suc (busy_count ws)"
  using busy_count_update [of i ws w] by simp

lemma busy_count_less:
  "i < length ws \<Longrightarrow> \<not> available (ws ! i) \<Longrightarrow> available w \<Longrightarrow> Suc (busy_count (ws[i := w])) = busy_count ws"
  using busy_count_update [of i ws w] by simp

lemma busy_count_le: "busy_count ws \<le> length ws"
  by (simp add: busy_count_def)

lemma pool_inv_init: "pool_inv n (init_manager n q)"
  by (simp add: pool_inv_def pc_ok_def init_manager_def init_workers_def busy_count_def
      available_def init_worker_def list_all_iff)

lemma pool_inv_mgr: "pool_inv n s \<Longrightarrow> pool_inv n (mgr_step s)"
  unfolding pool_inv_def mgr_step_def pc_ok_def
  by (cases "pc s")
    (auto simp: manager_talk_to_gui_def busy_count_same busy_count_more set_url_def
      set_index_def close_def available_def list_all_length nth_list_update split: list.splits)

lemma pool_inv_wrk: "pool_inv n s \<Longrightarrow> pool_inv n (wrk_step i s)"
  unfolding pool_inv_def pc_ok_def
  apply (simp)
  unfolding wrk_step_alt Let_def
  by (cases "w_pc (workers s ! i)")
    (auto simp: busy_count_same busy_count_less reset_def available_def list_all_length nth_list_update)

lemma pool_inv_ret: "pool_inv n s \<Longrightarrow> pool_inv n (ret_step i rc s)"
  unfolding pool_inv_def pc_ok_def
  apply simp
  unfolding ret_step_def
  by (auto simp: busy_count_same available_def list_all_length nth_list_update)

lemma pool_inv_stop_begin: "pool_inv n s \<Longrightarrow> pool_inv n (stop_begin s)"
  by (auto simp: pool_inv_def pc_ok_def stop_begin_def manager_talk_to_gui_def)

lemma busy_count_map_stop [simp]: "busy_count (map stop_download ws) = busy_count ws"
  by (induction ws) (auto simp: busy_count_def stop_download_def available_def)

lemma pool_inv_stop_end: "pool_inv n s \<Longrightarrow> pool_inv n (stop_end s)"
  by (auto simp: pool_inv_def pc_ok_def stop_end_def list_all_length stop_download_def
      available_def)

lemma pool_inv_add: "pool_inv n s \<Longrightarrow> pool_inv n (add_url it s)"
  by (auto simp: pool_inv_def pc_ok_def add_url_def)

lemma pool_inv_step: "pool_inv n s \<Longrightarrow> pool_inv n (step a s)"
  by (cases a)
    (simp_all add: pool_inv_mgr pool_inv_wrk pool_inv_ret pool_inv_stop_begin pool_inv_stop_end
      pool_inv_add, auto simp: pool_inv_def pc_ok_def)

lemma pool_inv_exec: "pool_inv n s \<Longrightarrow> pool_inv n (exec acts s)"
  by (induction acts rule: rev_induct) (simp_all add: pool_inv_step)

lemma assigned_mgr_step:
  "assigned (mgr_step s) = assigned s \<or> (\<exists>i it. pc s = M_url i it \<and> assigned (mgr_step s) = assigned s @ [(i, it)]
     \<and> workers (mgr_step s) = (workers s)[i := set_url (workers s ! i) it])"
  by (cases "pc s") (auto simp: mgr_step_def manager_talk_to_gui_def split: list.splits)


text \<open>
  C1: the constructor allocates \<^verbatim>\<open>WORKERS_NUMBER\<close> = 3 workers, and in every state a run
  reaches from a pool of \<open>n\<close> workers and any queue, under any interleaving, the pool still
  has \<open>n\<close> workers and the number of assignments made so far is the number of completed
  items plus the number of busy workers, hence at most \<open>n\<close> more than the completed ones.
  \<^verbatim>\<open>pop(0)\<close> never raises. An assignment (\<^verbatim>\<open>self._url = item['url']\<close>) is only made
  to a worker whose \<^verbatim>\<open>available()\<close> is true at that moment.
\<close>

theorem pool_bound:
  "length (workers (DownloadManager q)) = WORKERS_NUMBER \<and> WORKERS_NUMBER = 3 \<and>
   (let s = exec acts (init_manager n q) in
      length (workers s) = n \<and>
      length (assigned s) = resets s + busy_count (workers s) \<and>
      busy_count (workers s) \<le> n \<and>
      length (assigned s) \<le> resets s + n \<and>
      pc s \<noteq> M_crashed \<and>
      (\<forall>i it. pc s = M_url i it \<longrightarrow> i < n \<and> available (workers s ! i)) \<and>
      (assigned (mgr_step s) \<noteq> assigned s \<longrightarrow>
         (\<exists>i it. pc s = M_url i it \<and> i < n \<and> available (workers s ! i) \<and>
            assigned (mgr_step s) = assigned s @ [(i, it)] \<and>
            workers (mgr_step s) = (workers s)[i := set_url (workers s ! i) it])))"
proof -
  define s where "s = exec acts (init_manager n q)"
  have inv: "pool_inv n s"
    unfolding s_def by (rule pool_inv_exec [OF pool_inv_init])
  have len: "length (workers s) = n" and cnt: "length (assigned s) = resets s + busy_count (workers s)"
    and ok: "pc_ok s"
    using inv by (simp_all add: pool_inv_def)
  have le: "busy_count (workers s) \<le> n"
    using busy_count_le [of "workers s"] len by simp
  have url: "\<forall>i it. pc s = M_url i it \<longrightarrow> i < n \<and> available (workers s ! i)"
    using ok len by (auto simp: pc_ok_def)
  have grow: "assigned (mgr_step s) \<noteq> assigned s \<longrightarrow>
         (\<exists>i it. pc s = M_url i it \<and> i < n \<and> available (workers s ! i) \<and>
            assigned (mgr_step s) = assigned s @ [(i, it)] \<and>
            workers (mgr_step s) = (workers s)[i := set_url (workers s ! i) it])"
    using assigned_mgr_step [of s] url by blast
  have "length (workers (DownloadManager q)) = WORKERS_NUMBER"
    by (simp add: DownloadManager_def init_manager_def init_workers_def)
  moreover have "WORKERS_NUMBER = 3" by (simp add: WORKERS_NUMBER_def)
  moreover have "pc s \<noteq> M_crashed" using ok by (simp add: pc_ok_def)
  ultimately show ?thesis
    using len cnt le url grow unfolding Let_def s_def [symmetric] by simp
qed

theorem pool_bound_witness:
  "(let s = exec [Mgr, Mgr, Mgr, Mgr] (init_manager 2 [\<lparr>url = ''a'', index = 0\<rparr>]) in
      pc s = M_url 0 \<lparr>url = ''a'', index = 0\<rparr> \<and> available (workers s ! 0) \<and>
      length (workers s) = 2 \<and> assigned s = [] \<and> resets s = 0 \<and> busy_count (workers s) = 0 \<and>
      assigned (mgr_step s) = [(0, \<lparr>url = ''a'', index = 0\<rparr>)] \<and>
      busy_count (workers (mgr_step s)) = 1)"
proof -
  have run: ?thesis by code_simp
  show ?thesis
    using run pool_bound [where acts = "[Mgr, Mgr, Mgr, Mgr]" and n = 2
      and q = "[\<lparr>url = ''a'', index = 0\<rparr>]"]
    by simp
qed

section \<open>Dispatch order\<close>

text \<open>The items a run adds with \<^verbatim>\<open>add_url\<close>, in the order of the calls.\<close>

fun added_by :: "action \<Rightarrow> item list" where
  "added_by (Add it) = [it]"
| "added_by Mgr = []"
| "added_by (Wrk i) = []"
| "added_by (Ret i rc) = []"
| "added_by Stop_begin = []"
| "added_by Stop_end = []"
| "added_by Tick = []"

definition added :: "action list \<Rightarrow> item list" where
  "added acts = concat (map added_by acts)"

text \<open>The item the manager has popped and not yet stored in a worker.\<close>

fun in_hand :: "mpc \<Rightarrow> item list" where
  "in_hand (M_url i it) = [it]"
| "in_hand M_start = []"
| "in_hand M_while = []"
| "in_hand (M_for i) = []"
| "in_hand (M_pop i) = []"
| "in_hand (M_index i it) = []"
| "in_hand M_sleep = []"
| "in_hand M_break = []"
| "in_hand (M_close i) = []"
| "in_hand (M_join i) = []"
| "in_hand M_time = []"
| "in_hand M_signal = []"
| "in_hand M_done = []"
| "in_hand M_crashed = []"

definition dispatched :: "manager \<Rightarrow> item list" where
  "dispatched s = map snd (assigned s) @ in_hand (pc s)"

lemma fifo_mgr: "dispatched (mgr_step s) @ urls_list (mgr_step s) = dispatched s @ urls_list s"
  by (cases "pc s")
    (auto simp: dispatched_def mgr_step_def manager_talk_to_gui_def split: list.splits)

lemma fifo_step:
  "dispatched (step a s) @ urls_list (step a s) = dispatched s @ urls_list s @ added_by a"
  by (cases a) (simp_all add: fifo_mgr, simp_all add: dispatched_def stop_begin_def stop_end_def
      manager_talk_to_gui_def add_url_def)

lemma fifo_exec:
  "dispatched (exec acts s) @ urls_list (exec acts s) = dispatched s @ urls_list s @ added acts"
  by (induction acts rule: rev_induct) (simp_all add: fifo_step added_def)

lemma urls_list_pop:
  "pc s = M_pop i \<Longrightarrow> urls_list s = it # rest \<Longrightarrow>
     urls_list (mgr_step s) = rest \<and> pc (mgr_step s) = M_url i it"
  by (simp add: mgr_step_def)

text \<open>
  C6: in every state of every run, the items assigned so far (in the order of the
  assignments), then the item popped and not yet assigned, then the pending queue, are
  exactly the initial queue followed by the items added at runtime, in the order they were
  added. So the assignments are a prefix of the enqueue order: the \<open>j\<close>-th assignment is
  the \<open>j\<close>-th enqueued item, for any number of workers. \<^verbatim>\<open>add_url\<close> appends at the
  tail and \<^verbatim>\<open>pop(0)\<close> removes the head.
\<close>

theorem dispatch_fifo:
  "(let s = exec acts (init_manager n q) in
      map snd (assigned s) @ in_hand (pc s) @ urls_list s = q @ added acts \<and>
      prefix (map snd (assigned s)) (q @ added acts) \<and>
      (\<forall>j < length (assigned s). snd (assigned s ! j) = (q @ added acts) ! j) \<and>
      urls_list (step (Add b) s) = urls_list s @ [b] \<and>
      (\<forall>i it rest. pc s = M_pop i \<and> urls_list s = it # rest \<longrightarrow>
         urls_list (mgr_step s) = rest \<and> pc (mgr_step s) = M_url i it))"
proof -
  define s where "s = exec acts (init_manager n q)"
  have "dispatched s @ urls_list s = dispatched (init_manager n q) @ urls_list (init_manager n q) @ added acts"
    unfolding s_def by (rule fifo_exec)
  then have eq: "map snd (assigned s) @ in_hand (pc s) @ urls_list s = q @ added acts"
    by (simp add: dispatched_def init_manager_def)
  then have pre: "prefix (map snd (assigned s)) (q @ added acts)"
    by (metis prefixI)
  have nth: "\<forall>j < length (assigned s). snd (assigned s ! j) = (q @ added acts) ! j"
  proof (intro allI impI)
    fix j assume j: "j < length (assigned s)"
    have "(q @ added acts) ! j = (map snd (assigned s) @ in_hand (pc s) @ urls_list s) ! j"
      using eq by simp
    also have "\<dots> = snd (assigned s ! j)"
      using j by (simp add: nth_append)
    finally show "snd (assigned s ! j) = (q @ added acts) ! j" by simp
  qed
  have add: "urls_list (step (Add b) s) = urls_list s @ [b]"
    by (simp add: add_url_def)
  show ?thesis
    unfolding Let_def s_def [symmetric] using eq pre nth add urls_list_pop by blast
qed

theorem dispatch_fifo_witness:
  "(let s = exec [Mgr, Mgr, Mgr, Mgr, Mgr, Mgr, Add \<lparr>url = ''c'', index = 2\<rparr>,
                  Wrk 0, Wrk 0, Ret 0 OK, Wrk 0, Wrk 0, Wrk 0,
                  Mgr, Mgr, Mgr, Mgr, Mgr]
              (init_manager 1 [\<lparr>url = ''a'', index = 0\<rparr>, \<lparr>url = ''b'', index = 1\<rparr>]) in
      pc s = M_pop 0 \<and>
      assigned s = [(0, \<lparr>url = ''a'', index = 0\<rparr>)] \<and>
      urls_list s = [\<lparr>url = ''b'', index = 1\<rparr>, \<lparr>url = ''c'', index = 2\<rparr>] \<and>
      urls_list (mgr_step s) = [\<lparr>url = ''c'', index = 2\<rparr>] \<and>
      pc (mgr_step s) = M_url 0 \<lparr>url = ''b'', index = 1\<rparr> \<and>
      assigned (mgr_step (mgr_step s)) =
        [(0, \<lparr>url = ''a'', index = 0\<rparr>), (0, \<lparr>url = ''b'', index = 1\<rparr>)])"
proof -
  have run: ?thesis by code_simp
  show ?thesis
    using run
      dispatch_fifo [where acts = "[Mgr, Mgr, Mgr, Mgr, Mgr, Mgr, Add \<lparr>url = ''c'', index = 2\<rparr>,
                  Wrk 0, Wrk 0, Ret 0 OK, Wrk 0, Wrk 0, Wrk 0,
                  Mgr, Mgr, Mgr, Mgr, Mgr]" and n = 1
        and q = "[\<lparr>url = ''a'', index = 0\<rparr>, \<lparr>url = ''b'', index = 1\<rparr>]"]
    by simp
qed

section \<open>Lifecycle signals\<close>

text \<open>The terminal signals among the published ones.\<close>

definition terminal_signals :: "manager \<Rightarrow> string list" where
  "terminal_signals s = filter (\<lambda>x. x = ''closed'' \<or> x = ''finished'') (signals s)"

text \<open>The positions of \<^verbatim>\<open>run\<close> behind its \<^verbatim>\<open>while\<close> loop.\<close>

fun after_loop :: "mpc \<Rightarrow> bool" where
  "after_loop (M_close i) = True"
| "after_loop (M_join i) = True"
| "after_loop M_time = True"
| "after_loop M_signal = True"
| "after_loop M_done = True"
| "after_loop M_start = False"
| "after_loop M_while = False"
| "after_loop (M_for i) = False"
| "after_loop (M_pop i) = False"
| "after_loop (M_url i it) = False"
| "after_loop (M_index i it) = False"
| "after_loop M_sleep = False"
| "after_loop M_break = False"
| "after_loop M_crashed = False"

definition sig_inv :: "manager \<Rightarrow> bool" where
  "sig_inv s \<longleftrightarrow>
     (pc s \<noteq> M_done \<longrightarrow> terminal_signals s = []) \<and>
     (pc s = M_done \<longrightarrow> terminal_signals s = [''closed''] \<or> terminal_signals s = [''finished'']) \<and>
     (0 < stop_calls s \<longrightarrow> ''closing'' \<in> set (signals s)) \<and>
     (\<not> running s \<longrightarrow> ''closing'' \<in> set (signals s)) \<and>
     (''closed'' \<in> set (signals s) \<longrightarrow> \<not> running s) \<and>
     (''finished'' \<in> set (signals s) \<longrightarrow> left_by s = Some By_completion) \<and>
     (left_by s = Some By_stop \<longrightarrow> \<not> running s) \<and>
     (after_loop (pc s) \<longleftrightarrow> left_by s \<noteq> None)"

lemma not_By_stop: "(y \<noteq> By_stop) = (y = By_completion)"
  by (cases y) simp_all

lemma sig_inv_init: "sig_inv (init_manager n q)"
  by (simp add: sig_inv_def init_manager_def terminal_signals_def)

lemma sig_inv_mgr: "sig_inv s \<Longrightarrow> sig_inv (mgr_step s)"
  unfolding sig_inv_def mgr_step_def terminal_signals_def
  by (cases "pc s") (auto simp: manager_talk_to_gui_def not_By_stop split: list.splits)

lemma sig_inv_step: "sig_inv s \<Longrightarrow> sig_inv (step a s)"
proof (cases a)
  case Mgr
  assume "sig_inv s" then show ?thesis using Mgr by (simp add: sig_inv_mgr)
next
  case (Wrk i)
  assume "sig_inv s" then show ?thesis using Wrk by (simp add: sig_inv_def terminal_signals_def)
next
  case (Ret i rc)
  assume "sig_inv s" then show ?thesis using Ret by (simp add: sig_inv_def terminal_signals_def)
next
  case Stop_begin
  assume "sig_inv s" then show ?thesis using Stop_begin
    by (auto simp: sig_inv_def terminal_signals_def stop_begin_def manager_talk_to_gui_def)
next
  case Stop_end
  assume "sig_inv s" then show ?thesis using Stop_end
    by (auto simp: sig_inv_def terminal_signals_def stop_end_def)
next
  case (Add it)
  assume "sig_inv s" then show ?thesis using Add
    by (auto simp: sig_inv_def terminal_signals_def add_url_def)
next
  case Tick
  assume "sig_inv s" then show ?thesis using Tick
    by (auto simp: sig_inv_def terminal_signals_def)
qed

lemma sig_inv_exec: "sig_inv s \<Longrightarrow> sig_inv (exec acts s)"
  by (induction acts rule: rev_induct) (simp_all add: sig_inv_step)

lemma sig_inv_reach: "sig_inv (exec acts (init_manager n q))"
  by (rule sig_inv_exec [OF sig_inv_init])

lemma in_terminal_signals:
  "x \<in> set (terminal_signals s) \<longleftrightarrow> x \<in> set (signals s) \<and> (x = ''closed'' \<or> x = ''finished'')"
  by (auto simp: terminal_signals_def)

text \<open>
  C3, as stated, fails: the loop of a manager with one worker and an empty queue is left by
  \<^verbatim>\<open>break\<close> (natural completion) while \<^verbatim>\<open>_running\<close> is true and nothing has been
  published; \<^verbatim>\<open>stop_downloads\<close> is then called during the clean-up, and the terminal
  signal is \<^verbatim>\<open>'closed'\<close>, not \<^verbatim>\<open>'finished'\<close>.
\<close>

theorem terminal_signal_counterexample:
  "left_by (exec [Mgr, Mgr, Mgr, Mgr, Mgr, Mgr] (init_manager 1 [])) = Some By_completion \<and>
   running (exec [Mgr, Mgr, Mgr, Mgr, Mgr, Mgr] (init_manager 1 [])) \<and>
   signals (exec [Mgr, Mgr, Mgr, Mgr, Mgr, Mgr] (init_manager 1 [])) = [] \<and>
   pc (exec [Mgr, Mgr, Mgr, Mgr, Mgr, Mgr, Stop_begin, Stop_end, Mgr, Wrk 0, Mgr, Mgr, Mgr, Mgr]
         (init_manager 1 [])) = M_done \<and>
   left_by (exec [Mgr, Mgr, Mgr, Mgr, Mgr, Mgr, Stop_begin, Stop_end, Mgr, Wrk 0, Mgr, Mgr, Mgr, Mgr]
         (init_manager 1 [])) = Some By_completion \<and>
   signals (exec [Mgr, Mgr, Mgr, Mgr, Mgr, Mgr, Stop_begin, Stop_end, Mgr, Wrk 0, Mgr, Mgr, Mgr, Mgr]
         (init_manager 1 [])) = [''closing'', ''closed'']"
  by code_simp

text \<open>
  C3, amended: no terminal signal is published before \<^verbatim>\<open>run\<close> returns, and exactly one
  has been published once it has returned. The signal is chosen by the final test of
  \<^verbatim>\<open>_running\<close>, after the clean-up: \<^verbatim>\<open>'closed'\<close> when it is false there, \<^verbatim>\<open>'finished'\<close>
  when it is true. So it is \<^verbatim>\<open>'closed'\<close> whenever the loop was left because
  \<^verbatim>\<open>_running\<close> was false; \<^verbatim>\<open>'finished'\<close> is published only after the loop was left by
  natural completion, and it is the signal whenever \<^verbatim>\<open>_running\<close> is still true when
  \<^verbatim>\<open>run\<close> has returned; \<^verbatim>\<open>'closed'\<close> is published only after a stop request
  (\<^verbatim>\<open>'closing'\<close> was published and \<^verbatim>\<open>_running\<close> is false).
\<close>

theorem terminal_signal:
  "(let s = exec acts (init_manager n q) in
      (pc s \<noteq> M_done \<longrightarrow> terminal_signals s = []) \<and>
      (pc s = M_done \<longrightarrow> terminal_signals s = [''closed''] \<or> terminal_signals s = [''finished'']) \<and>
      (pc s = M_signal \<longrightarrow>
         pc (mgr_step s) = M_done \<and>
         terminal_signals (mgr_step s) = [if running s then ''finished'' else ''closed'']) \<and>
      (left_by s = Some By_stop \<longrightarrow> \<not> running s \<and> ''finished'' \<notin> set (signals s)) \<and>
      (left_by s = Some By_stop \<and> pc s = M_done \<longrightarrow> terminal_signals s = [''closed'']) \<and>
      (''finished'' \<in> set (signals s) \<longrightarrow> left_by s = Some By_completion) \<and>
      (''closed'' \<in> set (signals s) \<longrightarrow> \<not> running s \<and> ''closing'' \<in> set (signals s)) \<and>
      (running s \<and> pc s = M_done \<longrightarrow>
         left_by s = Some By_completion \<and> terminal_signals s = [''finished'']))"
proof -
  define s where "s = exec acts (init_manager n q)"
  have inv: "sig_inv s" unfolding s_def by (rule sig_inv_reach)
  have a: "pc s \<noteq> M_done \<longrightarrow> terminal_signals s = []"
    and b: "pc s = M_done \<longrightarrow> terminal_signals s = [''closed''] \<or> terminal_signals s = [''finished'']"
    and c: "\<not> running s \<longrightarrow> ''closing'' \<in> set (signals s)"
    and d: "''closed'' \<in> set (signals s) \<longrightarrow> \<not> running s"
    and e: "''finished'' \<in> set (signals s) \<longrightarrow> left_by s = Some By_completion"
    and f: "left_by s = Some By_stop \<longrightarrow> \<not> running s"
    using inv by (simp_all add: sig_inv_def)
  have g: "left_by s = Some By_stop \<longrightarrow> ''finished'' \<notin> set (signals s)"
    using e by auto
  have fin: "terminal_signals s = [''finished''] \<Longrightarrow> ''finished'' \<in> set (signals s)"
    using in_terminal_signals [of "''finished''" s] by simp
  have clo: "terminal_signals s = [''closed''] \<Longrightarrow> ''closed'' \<in> set (signals s)"
    using in_terminal_signals [of "''closed''" s] by simp
  have h: "left_by s = Some By_stop \<and> pc s = M_done \<longrightarrow> terminal_signals s = [''closed'']"
    using b g fin by blast
  have i: "running s \<and> pc s = M_done \<longrightarrow>
         left_by s = Some By_completion \<and> terminal_signals s = [''finished'']"
    using b d e fin clo by blast
  have j: "pc s = M_signal \<longrightarrow>
         pc (mgr_step s) = M_done \<and>
         terminal_signals (mgr_step s) = [if running s then ''finished'' else ''closed'']"
  proof
    assume p: "pc s = M_signal"
    then have "terminal_signals s = []" using a by simp
    then show "pc (mgr_step s) = M_done \<and>
         terminal_signals (mgr_step s) = [if running s then ''finished'' else ''closed'']"
      using p by (simp add: mgr_step_def terminal_signals_def manager_talk_to_gui_def)
  qed
  show ?thesis
    unfolding Let_def s_def [symmetric] using a b c d e f g h i j by blast
qed

theorem terminal_signal_witness:
  "pc (exec [Mgr, Mgr, Mgr, Mgr, Mgr, Mgr, Mgr, Wrk 0, Mgr, Mgr, Mgr, Mgr] (init_manager 1 [])) = M_done \<and>
   running (exec [Mgr, Mgr, Mgr, Mgr, Mgr, Mgr, Mgr, Wrk 0, Mgr, Mgr, Mgr, Mgr] (init_manager 1 [])) \<and>
   left_by (exec [Mgr, Mgr, Mgr, Mgr, Mgr, Mgr, Mgr, Wrk 0, Mgr, Mgr, Mgr, Mgr] (init_manager 1 []))
     = Some By_completion \<and>
   terminal_signals (exec [Mgr, Mgr, Mgr, Mgr, Mgr, Mgr, Mgr, Wrk 0, Mgr, Mgr, Mgr, Mgr]
     (init_manager 1 [])) = [''finished''] \<and>
   pc (exec [Stop_begin, Stop_end, Mgr, Mgr, Mgr, Wrk 0, Mgr, Mgr, Mgr, Mgr] (init_manager 1 [])) = M_done \<and>
   left_by (exec [Stop_begin, Stop_end, Mgr, Mgr, Mgr, Wrk 0, Mgr, Mgr, Mgr, Mgr] (init_manager 1 []))
     = Some By_stop \<and>
   terminal_signals (exec [Stop_begin, Stop_end, Mgr, Mgr, Mgr, Wrk 0, Mgr, Mgr, Mgr, Mgr]
     (init_manager 1 [])) = [''closed'']"
proof -
  have run: ?thesis by code_simp
  show ?thesis
    using run
      terminal_signal [where acts = "[Mgr, Mgr, Mgr, Mgr, Mgr, Mgr, Mgr, Wrk 0, Mgr, Mgr, Mgr, Mgr]"
        and n = 1 and q = "[]"]
      terminal_signal [where acts = "[Stop_begin, Stop_end, Mgr, Mgr, Mgr, Wrk 0, Mgr, Mgr, Mgr, Mgr]"
        and n = 1 and q = "[]"]
    by simp
qed

section \<open>Stopping twice\<close>

lemma closing_count_mgr:
  "count_list (signals (mgr_step s)) ''closing'' = count_list (signals s) ''closing''"
  by (cases "pc s") (auto simp: mgr_step_def manager_talk_to_gui_def split: list.splits)

lemma closing_count_step:
  "count_list (signals (step a s)) ''closing'' =
     count_list (signals s) ''closing'' + count_list [a] Stop_begin"
  by (cases a)
    (simp_all add: closing_count_mgr stop_begin_def stop_end_def manager_talk_to_gui_def add_url_def)

lemma closing_count_exec:
  "count_list (signals (exec acts s)) ''closing'' =
     count_list (signals s) ''closing'' + count_list acts Stop_begin"
  by (induction acts rule: rev_induct) (simp_all add: closing_count_step)

text \<open>\<^verbatim>\<open>_running\<close> has been cleared and \<^verbatim>\<open>'finished'\<close> has not been published.\<close>

definition stopped :: "manager \<Rightarrow> bool" where
  "stopped s \<longleftrightarrow> \<not> running s \<and> ''finished'' \<notin> set (signals s)"

lemma stopped_mgr: "stopped s \<Longrightarrow> stopped (mgr_step s)"
  by (cases "pc s") (auto simp: stopped_def mgr_step_def manager_talk_to_gui_def split: list.splits)

lemma stopped_step: "stopped s \<Longrightarrow> stopped (step a s)"
  by (cases a)
    (simp_all add: stopped_mgr, simp_all add: stopped_def stop_begin_def stop_end_def
      manager_talk_to_gui_def add_url_def)

lemma stopped_exec: "stopped s \<Longrightarrow> stopped (exec acts s)"
  by (induction acts rule: rev_induct) (simp_all add: stopped_step)

text \<open>
  C4, as stated, fails: every call of \<^verbatim>\<open>stop_downloads\<close> publishes \<^verbatim>\<open>'closing'\<close>, so
  two calls publish it twice.
\<close>

theorem stop_twice_counterexample:
  "pc (exec [Stop_begin, Stop_end, Stop_begin, Stop_end, Mgr, Mgr, Mgr, Wrk 0, Mgr, Mgr, Mgr, Mgr]
        (init_manager 1 [])) = M_done \<and>
   signals (exec [Stop_begin, Stop_end, Stop_begin, Stop_end, Mgr, Mgr, Mgr, Wrk 0, Mgr, Mgr, Mgr, Mgr]
        (init_manager 1 [])) = [''closing'', ''closing'', ''closed'']"
  by code_simp

text \<open>
  C4, amended: a run publishes one \<^verbatim>\<open>'closing'\<close> for each call of \<^verbatim>\<open>stop_downloads\<close>,
  hence two for two calls, and at most one terminal signal. If a call has cleared
  \<^verbatim>\<open>_running\<close> before \<^verbatim>\<open>run\<close> has returned, then \<^verbatim>\<open>'finished'\<close> is never
  published afterwards, and once \<^verbatim>\<open>run\<close> has returned the terminal signal is
  \<^verbatim>\<open>'closed'\<close>.
\<close>

theorem stop_twice:
  "(let s = exec acts (init_manager n q); s' = exec acts' s in
      count_list (signals s) ''closing'' = count_list acts Stop_begin \<and>
      (count_list acts Stop_begin = 2 \<longrightarrow> count_list (signals s) ''closing'' = 2) \<and>
      length (terminal_signals s) \<le> 1 \<and>
      (\<not> running s \<and> pc s \<noteq> M_done \<longrightarrow>
         ''finished'' \<notin> set (signals s') \<and>
         (pc s' = M_done \<longrightarrow> terminal_signals s' = [''closed''])))"
proof -
  define s where "s = exec acts (init_manager n q)"
  define s' where "s' = exec acts' s"
  have cnt: "count_list (signals s) ''closing'' = count_list acts Stop_begin"
    unfolding s_def using closing_count_exec [of acts "init_manager n q"]
    by (simp add: init_manager_def)
  have inv: "sig_inv s" unfolding s_def by (rule sig_inv_reach)
  have "s' = exec (acts @ acts') (init_manager n q)"
    by (simp add: s'_def s_def exec_append)
  then have inv': "sig_inv s'" by (simp add: sig_inv_reach)
  have one: "length (terminal_signals s) \<le> 1"
    using inv by (cases "pc s = M_done") (auto simp: sig_inv_def)
  have late: "''finished'' \<notin> set (signals s') \<and> (pc s' = M_done \<longrightarrow> terminal_signals s' = [''closed''])"
    if "\<not> running s" and "pc s \<noteq> M_done"
  proof -
    have "terminal_signals s = []" using inv that by (simp add: sig_inv_def)
    then have "''finished'' \<notin> set (signals s)"
      using in_terminal_signals [of "''finished''" s] by simp
    then have "stopped s" using that by (simp add: stopped_def)
    then have "stopped s'" unfolding s'_def by (rule stopped_exec)
    then have nf: "''finished'' \<notin> set (signals s')" by (simp add: stopped_def)
    then have "terminal_signals s' \<noteq> [''finished'']"
      using in_terminal_signals [of "''finished''" s'] by auto
    then have "pc s' = M_done \<longrightarrow> terminal_signals s' = [''closed'']"
      using inv' by (auto simp: sig_inv_def)
    with nf show ?thesis by simp
  qed
  show ?thesis
    unfolding Let_def s_def [symmetric] s'_def [symmetric] using cnt one late by auto
qed

theorem stop_twice_witness:
  "count_list [Stop_begin, Stop_end, Stop_begin, Stop_end] Stop_begin = 2 \<and>
   \<not> running (exec [Stop_begin, Stop_end, Stop_begin, Stop_end] (init_manager 1 [])) \<and>
   pc (exec [Stop_begin, Stop_end, Stop_begin, Stop_end] (init_manager 1 [])) = M_start \<and>
   signals (exec [Stop_begin, Stop_end, Stop_begin, Stop_end] (init_manager 1 []))
     = [''closing'', ''closing''] \<and>
   pc (exec [Mgr, Mgr, Mgr, Wrk 0, Mgr, Mgr, Mgr, Mgr]
        (exec [Stop_begin, Stop_end, Stop_begin, Stop_end] (init_manager 1 []))) = M_done \<and>
   terminal_signals (exec [Mgr, Mgr, Mgr, Wrk 0, Mgr, Mgr, Mgr, Mgr]
        (exec [Stop_begin, Stop_end, Stop_begin, Stop_end] (init_manager 1 []))) = [''closed'']"
proof -
  have run: ?thesis by code_simp
  show ?thesis
    using run
      stop_twice [where acts = "[Stop_begin, Stop_end, Stop_begin, Stop_end]" and n = 1 and q = "[]"
        and acts' = "[Mgr, Mgr, Mgr, Wrk 0, Mgr, Mgr, Mgr, Mgr]"]
    by simp
qed

section \<open>Clean-up before the terminal signal\<close>

text \<open>
  A worker whose thread is over and on which \<^verbatim>\<open>close()\<close> has run (\<^verbatim>\<open>_running\<close> is
  false and its downloader was asked to stop).
\<close>

definition gone :: "worker \<Rightarrow> bool" where
  "gone w \<longleftrightarrow> w_pc w = W_dead \<and> \<not> w_running w \<and> 0 < w_stops w"

definition join_inv :: "manager \<Rightarrow> bool" where
  "join_inv s \<longleftrightarrow>
     (\<forall>i. pc s = M_close i \<longrightarrow>
        i \<le> length (workers s) \<and> (\<forall>j<i. gone (workers s ! j))) \<and>
     (\<forall>i. pc s = M_join i \<longrightarrow>
        i < length (workers s) \<and> (\<forall>j<i. gone (workers s ! j)) \<and>
        \<not> w_running (workers s ! i) \<and> 0 < w_stops (workers s ! i)) \<and>
     (pc s = M_time \<or> pc s = M_signal \<or> pc s = M_done \<longrightarrow>
        (\<forall>j<length (workers s). gone (workers s ! j)))"

lemma wrk_step_keeps:
  "w_running (workers (wrk_step i s) ! j) = w_running (workers s ! j)"
  "w_stops (workers (wrk_step i s) ! j) = w_stops (workers s ! j)"
  "w_index (workers (wrk_step i s) ! j) = w_index (workers s ! j)"
  "w_pc (workers s ! j) = W_dead \<Longrightarrow> w_pc (workers (wrk_step i s) ! j) = W_dead"
  by (cases "i = j"; cases "w_pc (workers s ! i)";
      simp add: wrk_step_alt Let_def reset_def)+

lemma ret_step_keeps:
  "w_running (workers (ret_step i rc s) ! j) = w_running (workers s ! j)"
  "w_stops (workers (ret_step i rc s) ! j) = w_stops (workers s ! j)"
  "w_index (workers (ret_step i rc s) ! j) = w_index (workers s ! j)"
  "w_pc (workers s ! j) = W_dead \<Longrightarrow> w_pc (workers (ret_step i rc s) ! j) = W_dead"
  by (cases "i = j"; simp add: ret_step_def)+

lemma gone_wrk: "gone (workers s ! j) \<Longrightarrow> gone (workers (wrk_step i s) ! j)"
  by (simp add: gone_def wrk_step_keeps)

lemma gone_ret: "gone (workers s ! j) \<Longrightarrow> gone (workers (ret_step i rc s) ! j)"
  by (simp add: gone_def ret_step_keeps)

lemma join_inv_init: "join_inv (init_manager n q)"
  by (simp add: join_inv_def init_manager_def)

lemma join_inv_mgr: "join_inv s \<Longrightarrow> join_inv (mgr_step s)"
  unfolding join_inv_def mgr_step_def
  by (cases "pc s")
    (auto simp: manager_talk_to_gui_def close_def gone_def nth_list_update less_Suc_eq
      split: list.splits)

lemma join_inv_wrk: "join_inv s \<Longrightarrow> join_inv (wrk_step i s)"
  by (simp add: join_inv_def gone_wrk wrk_step_keeps)

lemma join_inv_ret: "join_inv s \<Longrightarrow> join_inv (ret_step i rc s)"
  by (simp add: join_inv_def gone_ret ret_step_keeps)

lemma join_inv_stop_end: "join_inv s \<Longrightarrow> join_inv (stop_end s)"
  by (auto simp: join_inv_def stop_end_def gone_def stop_download_def)

lemma join_inv_step: "join_inv s \<Longrightarrow> join_inv (step a s)"
  by (cases a)
    (simp_all add: join_inv_mgr join_inv_wrk join_inv_ret join_inv_stop_end,
      simp_all add: join_inv_def stop_begin_def manager_talk_to_gui_def add_url_def)

lemma join_inv_exec: "join_inv s \<Longrightarrow> join_inv (exec acts s)"
  by (induction acts rule: rev_induct) (simp_all add: join_inv_step)

lemma join_waits:
  "pc s = M_join i \<Longrightarrow> w_pc (workers s ! i) \<noteq> W_dead \<Longrightarrow> mgr_step s = s"
  by (simp add: mgr_step_def)

text \<open>
  C8: in every state of every run, however the loop was left: once the manager is about to
  finalise \<^verbatim>\<open>_time_it_took\<close>, or has done so, or has published a terminal signal, every
  worker has been closed and its thread is over. While the worker it joins is still
  running the manager does not move, and no terminal signal has been published.
\<close>

theorem workers_joined_first:
  "(let s = exec acts (init_manager n q) in
      length (workers s) = n \<and>
      (pc s = M_time \<or> pc s = M_signal \<or> pc s = M_done \<or> terminal_signals s \<noteq> [] \<longrightarrow>
         list_all gone (workers s)) \<and>
      (\<forall>i. pc s = M_join i \<and> w_pc (workers s ! i) \<noteq> W_dead \<longrightarrow>
         mgr_step s = s \<and> terminal_signals s = []))"
proof -
  define s where "s = exec acts (init_manager n q)"
  have ji: "join_inv s" unfolding s_def by (rule join_inv_exec [OF join_inv_init])
  have si: "sig_inv s" unfolding s_def by (rule sig_inv_reach)
  have len: "length (workers s) = n"
    using pool_inv_exec [OF pool_inv_init, of n acts q] by (simp add: pool_inv_def s_def)
  have tdone: "terminal_signals s \<noteq> [] \<longrightarrow> pc s = M_done"
    using si by (auto simp: sig_inv_def)
  have all: "pc s = M_time \<or> pc s = M_signal \<or> pc s = M_done \<or> terminal_signals s \<noteq> [] \<longrightarrow>
         list_all gone (workers s)"
    using ji tdone by (auto simp: join_inv_def list_all_length)
  have wait: "\<forall>i. pc s = M_join i \<and> w_pc (workers s ! i) \<noteq> W_dead \<longrightarrow>
         mgr_step s = s \<and> terminal_signals s = []"
    using join_waits [of s] si by (auto simp: sig_inv_def)
  show ?thesis
    unfolding Let_def s_def [symmetric] using len all wait by blast
qed

theorem workers_joined_first_witness:
  "pc (exec [Mgr, Mgr, Mgr, Mgr, Mgr, Mgr, Mgr, Mgr, Wrk 0, Mgr, Mgr, Wrk 1, Mgr, Mgr]
        (init_manager 2 [])) = M_time \<and>
   list_all gone (workers (exec [Mgr, Mgr, Mgr, Mgr, Mgr, Mgr, Mgr, Mgr, Wrk 0, Mgr, Mgr, Wrk 1, Mgr, Mgr]
        (init_manager 2 []))) \<and>
   pc (exec [Mgr, Mgr, Mgr, Mgr, Mgr, Mgr, Mgr, Mgr] (init_manager 2 [])) = M_join 0 \<and>
   w_pc (workers (exec [Mgr, Mgr, Mgr, Mgr, Mgr, Mgr, Mgr, Mgr] (init_manager 2 [])) ! 0) = W_while \<and>
   mgr_step (exec [Mgr, Mgr, Mgr, Mgr, Mgr, Mgr, Mgr, Mgr] (init_manager 2 []))
     = exec [Mgr, Mgr, Mgr, Mgr, Mgr, Mgr, Mgr, Mgr] (init_manager 2 [])"
proof -
  have run: ?thesis by code_simp
  show ?thesis
    using run
      workers_joined_first [where acts = "[Mgr, Mgr, Mgr, Mgr, Mgr, Mgr, Mgr, Mgr, Wrk 0, Mgr, Mgr, Wrk 1, Mgr, Mgr]"
        and n = 2 and q = "[]"]
      workers_joined_first [where acts = "[Mgr, Mgr, Mgr, Mgr, Mgr, Mgr, Mgr, Mgr]"
        and n = 2 and q = "[]"]
    by simp
qed

section \<open>Natural completion of an empty queue\<close>
















section \<open>The row index a worker stamps on its events\<close>

text \<open>
  The \<^verbatim>\<open>'index'\<close> of the item most recently assigned to worker \<open>j\<close> according to the
  log of assignments, and \<open>- 1\<close> when the log has none for \<open>j\<close>.
\<close>

definition last_index :: "nat \<Rightarrow> (nat \<times> item) list \<Rightarrow> int" where
  "last_index j log =
     (if filter (\<lambda>p. fst p = j) log = [] then - 1
      else index (snd (last (filter (\<lambda>p. fst p = j) log))))"

lemma last_index_Nil [simp]: "last_index j [] = - 1"
  by (simp add: last_index_def)

lemma last_index_snoc [simp]:
  "last_index j (log @ [(i, it)]) = (if i = j then index it else last_index j log)"
  by (simp add: last_index_def)

lemma last_index_unassigned: "j \<notin> fst ` set log \<Longrightarrow> last_index j log = - 1"
  by (induction log rule: rev_induct) auto

definition idx_inv :: "manager \<Rightarrow> bool" where
  "idx_inv s \<longleftrightarrow>
     (\<forall>i it. pc s = M_index i it \<longrightarrow>
        assigned s \<noteq> [] \<and> last (assigned s) = (i, it) \<and>
        (\<forall>j<length (workers s). w_index (workers s ! j) = last_index j (butlast (assigned s)))) \<and>
     ((\<forall>i it. pc s \<noteq> M_index i it) \<longrightarrow>
        (\<forall>j<length (workers s). w_index (workers s ! j) = last_index j (assigned s)))"

lemma idx_inv_init: "idx_inv (init_manager n q)"
  by (simp add: idx_inv_def init_manager_def init_workers_def init_worker_def)

lemma nth_update_cases: "j < length ws \<Longrightarrow> (ws[i := x]) ! j = (if i = j then x else ws ! j)"
  by auto

lemma last_index_last:
  assumes "log \<noteq> []" and "last log = (i, it)"
  shows "last_index j log = (if i = j then index it else last_index j (butlast log))"
proof -
  have "log = butlast log @ [(i, it)]"
    using assms append_butlast_last_id [of log] by simp
  then have "last_index j log = last_index j (butlast log @ [(i, it)])" by simp
  then show ?thesis by (simp only: last_index_snoc)
qed

lemma idx_inv_mgr: "idx_inv s \<Longrightarrow> idx_inv (mgr_step s)"
  unfolding idx_inv_def mgr_step_def
  by (cases "pc s")
    (auto simp: manager_talk_to_gui_def close_def set_url_def set_index_def nth_update_cases
      last_index_last split: list.splits)

lemma idx_inv_wrk: "idx_inv s \<Longrightarrow> idx_inv (wrk_step i s)"
  by (simp add: idx_inv_def wrk_step_keeps)

lemma idx_inv_ret: "idx_inv s \<Longrightarrow> idx_inv (ret_step i rc s)"
  by (simp add: idx_inv_def ret_step_keeps)

lemma idx_inv_stop_end: "idx_inv s \<Longrightarrow> idx_inv (stop_end s)"
  by (auto simp: idx_inv_def stop_end_def stop_download_def)

lemma idx_inv_step: "idx_inv s \<Longrightarrow> idx_inv (step a s)"
  by (cases a)
    (simp_all add: idx_inv_mgr idx_inv_wrk idx_inv_ret idx_inv_stop_end,
      simp_all add: idx_inv_def stop_begin_def manager_talk_to_gui_def add_url_def)

lemma idx_inv_exec: "idx_inv s \<Longrightarrow> idx_inv (exec acts s)"
  by (induction acts rule: rev_induct) (simp_all add: idx_inv_step)

lemma idx_inv_settled:
  assumes "idx_inv s" and "j < length (workers s)" and "\<forall>it. pc s \<noteq> M_index j it"
  shows "w_index (workers s ! j) = last_index j (assigned s)"
proof (cases "\<exists>i it. pc s = M_index i it")
  case True
  then obtain i it where p: "pc s = M_index i it" by blast
  with assms(3) have "i \<noteq> j" by auto
  moreover from assms(1) p have "assigned s \<noteq> []" "last (assigned s) = (i, it)"
    "w_index (workers s ! j) = last_index j (butlast (assigned s))"
    using assms(2) by (auto simp: idx_inv_def)
  ultimately show ?thesis by (simp add: last_index_last)
next
  case False
  with assms(1,2) show ?thesis by (auto simp: idx_inv_def)
qed

text \<open>
  C10: \<^verbatim>\<open>_index\<close> starts at \<open>- 1\<close>; the reset after an item clears \<^verbatim>\<open>_url\<close> only, and no
  step of a worker thread changes any \<^verbatim>\<open>_index\<close>. So in every state of every run in which
  the manager is not between the two statements of \<^verbatim>\<open>download\<close> for worker \<open>j\<close>, an event
  forwarded by worker \<open>j\<close> carries the row index of the item most recently assigned to
  \<open>j\<close>: \<open>- 1\<close> before its first assignment, and the index of the previous item after that
  item has completed, until the next assignment to \<open>j\<close>.
\<close>

theorem row_index_kept:
  "w_index init_worker = - 1 \<and>
   w_index (reset w) = w_index w \<and> available (reset w) \<and>
   w_index (workers (wrk_step i t) ! j) = w_index (workers t ! j) \<and>
   w_index (workers (ret_step i rc t) ! j) = w_index (workers t ! j) \<and>
   (let s = exec acts (init_manager n q) in
      j < n \<and> (\<forall>it. pc s \<noteq> M_index j it) \<longrightarrow>
        data_index (worker_talk_to_gui (workers s ! j) d) = Some (last_index j (assigned s)) \<and>
        (j \<notin> fst ` set (assigned s) \<longrightarrow>
           data_index (worker_talk_to_gui (workers s ! j) d) = Some (- 1)) \<and>
        (\<forall>log it. assigned s = log @ [(j, it)] \<longrightarrow>
           data_index (worker_talk_to_gui (workers s ! j) d) = Some (index it)) \<and>
        (\<forall>log it k it'. assigned s = log @ [(j, it), (k, it')] \<and> k \<noteq> j \<longrightarrow>
           data_index (worker_talk_to_gui (workers s ! j) d) = Some (index it)))"
proof -
  define s where "s = exec acts (init_manager n q)"
  have inv: "idx_inv s" unfolding s_def by (rule idx_inv_exec [OF idx_inv_init])
  have len: "length (workers s) = n"
    using pool_inv_exec [OF pool_inv_init, of n acts q] by (simp add: pool_inv_def s_def)
  have main: "w_index (workers s ! j) = last_index j (assigned s)"
    if "j < n" and "\<forall>it. pc s \<noteq> M_index j it"
    using idx_inv_settled [OF inv] that len by simp
  have "j < n \<and> (\<forall>it. pc s \<noteq> M_index j it) \<longrightarrow>
        data_index (worker_talk_to_gui (workers s ! j) d) = Some (last_index j (assigned s)) \<and>
        (j \<notin> fst ` set (assigned s) \<longrightarrow>
           data_index (worker_talk_to_gui (workers s ! j) d) = Some (- 1)) \<and>
        (\<forall>log it. assigned s = log @ [(j, it)] \<longrightarrow>
           data_index (worker_talk_to_gui (workers s ! j) d) = Some (index it)) \<and>
        (\<forall>log it k it'. assigned s = log @ [(j, it), (k, it')] \<and> k \<noteq> j \<longrightarrow>
           data_index (worker_talk_to_gui (workers s ! j) d) = Some (index it))"
  proof (intro impI, elim conjE)
    assume a: "j < n" "\<forall>it. pc s \<noteq> M_index j it"
    have m: "w_index (workers s ! j) = last_index j (assigned s)" using main a by simp
    have two: "last_index j (log @ [(j, it), (k, it')]) = index it" if "k \<noteq> j" for log it k it'
      using that last_index_snoc [of j "log @ [(j, it)]" k it'] by simp
    show "data_index (worker_talk_to_gui (workers s ! j) d) = Some (last_index j (assigned s)) \<and>
        (j \<notin> fst ` set (assigned s) \<longrightarrow>
           data_index (worker_talk_to_gui (workers s ! j) d) = Some (- 1)) \<and>
        (\<forall>log it. assigned s = log @ [(j, it)] \<longrightarrow>
           data_index (worker_talk_to_gui (workers s ! j) d) = Some (index it)) \<and>
        (\<forall>log it k it'. assigned s = log @ [(j, it), (k, it')] \<and> k \<noteq> j \<longrightarrow>
           data_index (worker_talk_to_gui (workers s ! j) d) = Some (index it))"
      using m two by (auto simp: worker_talk_to_gui_def last_index_unassigned)
  qed
  then have run: "let s = exec acts (init_manager n q) in
      j < n \<and> (\<forall>it. pc s \<noteq> M_index j it) \<longrightarrow>
        data_index (worker_talk_to_gui (workers s ! j) d) = Some (last_index j (assigned s)) \<and>
        (j \<notin> fst ` set (assigned s) \<longrightarrow>
           data_index (worker_talk_to_gui (workers s ! j) d) = Some (- 1)) \<and>
        (\<forall>log it. assigned s = log @ [(j, it)] \<longrightarrow>
           data_index (worker_talk_to_gui (workers s ! j) d) = Some (index it)) \<and>
        (\<forall>log it k it'. assigned s = log @ [(j, it), (k, it')] \<and> k \<noteq> j \<longrightarrow>
           data_index (worker_talk_to_gui (workers s ! j) d) = Some (index it))"
    unfolding Let_def s_def [symmetric] .
  have "w_index init_worker = - 1" by (simp add: init_worker_def)
  moreover have "w_index (reset w) = w_index w \<and> available (reset w)"
    by (simp add: reset_def available_def)
  moreover have "w_index (workers (wrk_step i t) ! j) = w_index (workers t ! j)"
    by (rule wrk_step_keeps)
  moreover have "w_index (workers (ret_step i rc t) ! j) = w_index (workers t ! j)"
    by (rule ret_step_keeps)
  ultimately show ?thesis using run by blast
qed


theorem row_index_kept_witness:
  "pc (exec [Mgr, Mgr] (init_manager 1 [\<lparr>url = ''a'', index = 7\<rparr>])) = M_for 0 \<and>
   assigned (exec [Mgr, Mgr] (init_manager 1 [\<lparr>url = ''a'', index = 7\<rparr>])) = [] \<and>
   data_index (worker_talk_to_gui
     (workers (exec [Mgr, Mgr] (init_manager 1 [\<lparr>url = ''a'', index = 7\<rparr>])) ! 0)
     \<lparr>status = Some ''Downloading'', playlist_index = None, playlist_size = None,
      data_index = None\<rparr>) = Some (- 1) \<and>
   pc (exec [Mgr, Mgr, Mgr, Mgr, Mgr, Mgr, Wrk 0, Wrk 0, Ret 0 ERROR, Wrk 0]
        (init_manager 1 [\<lparr>url = ''a'', index = 7\<rparr>])) = M_for 1 \<and>
   assigned (exec [Mgr, Mgr, Mgr, Mgr, Mgr, Mgr, Wrk 0, Wrk 0, Ret 0 ERROR, Wrk 0]
        (init_manager 1 [\<lparr>url = ''a'', index = 7\<rparr>])) = [(0, \<lparr>url = ''a'', index = 7\<rparr>)] \<and>
   available (workers (exec [Mgr, Mgr, Mgr, Mgr, Mgr, Mgr, Wrk 0, Wrk 0, Ret 0 ERROR, Wrk 0]
        (init_manager 1 [\<lparr>url = ''a'', index = 7\<rparr>])) ! 0) \<and>
   data_index (worker_talk_to_gui
     (workers (exec [Mgr, Mgr, Mgr, Mgr, Mgr, Mgr, Wrk 0, Wrk 0, Ret 0 ERROR, Wrk 0]
        (init_manager 1 [\<lparr>url = ''a'', index = 7\<rparr>])) ! 0)
     \<lparr>status = Some ''Downloading'', playlist_index = None, playlist_size = None,
      data_index = None\<rparr>) = Some 7"
proof -
  have run: ?thesis by code_simp
  show ?thesis
    using run
      row_index_kept [where acts = "[Mgr, Mgr]" and n = 1 and j = 0
        and q = "[\<lparr>url = ''a'', index = 7\<rparr>]"
        and d = "\<lparr>status = Some ''Downloading'', playlist_index = None, playlist_size = None,
                  data_index = None\<rparr>"]
      row_index_kept [where acts = "[Mgr, Mgr, Mgr, Mgr, Mgr, Mgr, Wrk 0, Wrk 0, Ret 0 ERROR, Wrk 0]"
        and n = 1 and j = 0 and q = "[\<lparr>url = ''a'', index = 7\<rparr>]"
        and d = "\<lparr>status = Some ''Downloading'', playlist_index = None, playlist_size = None,
                  data_index = None\<rparr>"]
    by simp
qed

section \<open>Success accounting\<close>


text \<open>The positions of a worker thread inside \<^verbatim>\<open>self._successful += 1\<close>.\<close>

fun in_increment :: "wpc \<Rightarrow> bool" where
  "in_increment W_inc_load = True"
| "in_increment (W_inc_store v) = True"
| "in_increment W_while = False"
| "in_increment W_if = False"
| "in_increment W_download = False"
| "in_increment W_reset = False"
| "in_increment W_sleep = False"
| "in_increment W_dead = False"

text \<open>The number of workers that are inside the increment.\<close>

definition incrementing :: "manager \<Rightarrow> nat" where
  "incrementing s = length (filter (\<lambda>w. in_increment (w_pc w)) (workers s))"



lemma filter_length_update:
  "i < length xs \<Longrightarrow>
   length (filter P (xs[i := x])) + (if P (xs ! i) then 1 else 0) =
   length (filter P xs) + (if P x then 1 else 0)"
proof (induction xs arbitrary: i)
  case Nil
  then show ?case by simp
next
  case (Cons a xs)
  show ?case
  proof (cases i)
    case 0
    then show ?thesis by simp
  next
    case (Suc j)
    with Cons.prems have "j < length xs" by simp
    from Cons.IH [OF this] Suc show ?thesis by (auto split: if_splits)
  qed
qed

lemma incrementing_update:
  "i < length (workers s) \<Longrightarrow> workers s' = (workers s)[i := w] \<Longrightarrow>
   incrementing s' + (if in_increment (w_pc (workers s ! i)) then 1 else 0) =
   incrementing s + (if in_increment (w_pc w) then 1 else 0)"
  using filter_length_update [of i "workers s" "\<lambda>w. in_increment (w_pc w)" w]
  by (simp add: incrementing_def)





































section \<open>The events a worker forwards in a run\<close>

text \<open>The item most recently assigned to worker \<open>j\<close> according to the log of assignments.\<close>

definition last_item :: "nat \<Rightarrow> (nat \<times> item) list \<Rightarrow> item option" where
  "last_item j log =
     (if filter (\<lambda>p. fst p = j) log = [] then None
      else Some (snd (last (filter (\<lambda>p. fst p = j) log))))"

lemma last_item_Nil [simp]: "last_item j [] = None"
  by (simp add: last_item_def)

lemma last_item_snoc [simp]:
  "last_item j (log @ [(i, it)]) = (if i = j then Some it else last_item j log)"
  by (simp add: last_item_def)

lemma last_index_item:
  "last_index j log = (case last_item j log of None \<Rightarrow> - 1 | Some it \<Rightarrow> index it)"
  by (simp add: last_index_def last_item_def)

text \<open>A worker that holds a URL holds the URL of the item most recently assigned to it.\<close>

definition held_inv :: "manager \<Rightarrow> bool" where
  "held_inv s \<longleftrightarrow>
     (\<forall>j u. j < length (workers s) \<and> w_url (workers s ! j) = Some u \<longrightarrow>
        (\<exists>it. last_item j (assigned s) = Some it \<and> url it = u))"

lemma held_inv_init: "held_inv (init_manager n q)"
  by (simp add: held_inv_def init_manager_def init_workers_def init_worker_def)

lemma held_inv_mgr: "held_inv s \<Longrightarrow> held_inv (mgr_step s)"
  unfolding held_inv_def mgr_step_def
  by (cases "pc s")
    (auto simp: manager_talk_to_gui_def close_def set_url_def set_index_def nth_update_cases
      split: list.splits if_splits)

lemma wrk_step_url:
  "w_url (workers (wrk_step i s) ! j) = Some u \<Longrightarrow> w_url (workers s ! j) = Some u"
  by (cases "i = j"; cases "w_pc (workers s ! i)"; cases "i < length (workers s)")
    (simp_all add: wrk_step_alt Let_def reset_def)

lemma ret_step_url: "w_url (workers (ret_step i rc s) ! j) = w_url (workers s ! j)"
  by (cases "i = j") (simp_all add: ret_step_def)

lemma held_inv_wrk: "held_inv s \<Longrightarrow> held_inv (wrk_step i s)"
  unfolding held_inv_def by (auto dest: wrk_step_url)

lemma held_inv_ret: "held_inv s \<Longrightarrow> held_inv (ret_step i rc s)"
  by (simp add: held_inv_def ret_step_url)

lemma held_inv_stop_end: "held_inv s \<Longrightarrow> held_inv (stop_end s)"
  by (auto simp: held_inv_def stop_end_def stop_download_def)

lemma held_inv_step: "held_inv s \<Longrightarrow> held_inv (step a s)"
  by (cases a)
    (simp_all add: held_inv_mgr held_inv_wrk held_inv_ret held_inv_stop_end,
      simp_all add: held_inv_def stop_begin_def manager_talk_to_gui_def add_url_def)

lemma held_inv_exec: "held_inv s \<Longrightarrow> held_inv (exec acts s)"
  by (induction acts rule: rev_induct) (simp_all add: held_inv_step)


text \<open>
  C5, as stated, fails twice. With the status and the playlist position present and the
  playlist size absent, the event is not forwarded with its status unchanged: the callback
  raises. And the row index of a forwarded event is the \<^verbatim>\<open>_index\<close> the worker has stored,
  which is not always that of the item it downloads: \<^verbatim>\<open>download\<close> stores \<^verbatim>\<open>_url\<close>
  before \<^verbatim>\<open>_index\<close>, and in this run the worker is already downloading the item of row 7
  while the manager has not yet stored its index, so the event carries \<open>- 1\<close>.
\<close>

theorem data_hook_forward_counterexample:
  "playlist_size \<lparr>status = Some ''Downloading'', playlist_index = Some ''2'', playlist_size = None,
      data_index = None\<rparr> = None \<and>
   data_hook init_worker
     \<lparr>status = Some ''Downloading'', playlist_index = Some ''2'', playlist_size = None,
      data_index = None\<rparr> = Inl TypeError \<and>
   pc (exec [Mgr, Mgr, Mgr, Mgr, Mgr, Wrk 0, Wrk 0]
        (init_manager 1 [\<lparr>url = ''a'', index = 7\<rparr>])) = M_index 0 \<lparr>url = ''a'', index = 7\<rparr> \<and>
   assigned (exec [Mgr, Mgr, Mgr, Mgr, Mgr, Wrk 0, Wrk 0]
        (init_manager 1 [\<lparr>url = ''a'', index = 7\<rparr>])) = [(0, \<lparr>url = ''a'', index = 7\<rparr>)] \<and>
   w_pc (workers (exec [Mgr, Mgr, Mgr, Mgr, Mgr, Wrk 0, Wrk 0]
        (init_manager 1 [\<lparr>url = ''a'', index = 7\<rparr>])) ! 0) = W_download \<and>
   w_url (workers (exec [Mgr, Mgr, Mgr, Mgr, Mgr, Wrk 0, Wrk 0]
        (init_manager 1 [\<lparr>url = ''a'', index = 7\<rparr>])) ! 0) = Some ''a'' \<and>
   data_hook (workers (exec [Mgr, Mgr, Mgr, Mgr, Mgr, Wrk 0, Wrk 0]
        (init_manager 1 [\<lparr>url = ''a'', index = 7\<rparr>])) ! 0)
     \<lparr>status = Some ''Downloading'', playlist_index = Some ''2'', playlist_size = Some ''5'',
      data_index = None\<rparr> =
   Inr \<lparr>status = Some ''Downloading 2/5'', playlist_index = Some ''2'',
        playlist_size = Some ''5'', data_index = Some (- 1)\<rparr>"
  by code_simp

text \<open>
  C5, amended: every event that is forwarded carries the row index the worker has stored.
  In every state of every run in which the manager is not between the two statements of
  \<^verbatim>\<open>download\<close> for worker \<open>j\<close>, this is the row index of the item most recently assigned
  to \<open>j\<close>, and while the worker holds a URL it is the row index of the very item whose URL
  it holds. The fragment \<^verbatim>\<open>" {index}/{size}"\<close> is appended when the status, the playlist
  position and the playlist size are all present; when the status or the playlist position
  is absent, the event is forwarded with its status unchanged; and the status of a forwarded
  event differs from the one received exactly when all three are present.
\<close>

theorem data_hook_enriches:
  "(status d = None \<or> playlist_index d = None \<longrightarrow>
      data_hook w d = Inr (d\<lparr>data_index := Some (w_index w)\<rparr>)) \<and>
   (\<forall>st pidx psize.
      status d = Some st \<and> playlist_index d = Some pidx \<and> playlist_size d = Some psize \<longrightarrow>
      data_hook w d =
        Inr (d\<lparr>status := Some (st @ '' '' @ pidx @ ''/'' @ psize), data_index := Some (w_index w)\<rparr>)) \<and>
   (\<forall>e. data_hook w d = Inr e \<longrightarrow>
      data_index e = Some (w_index w) \<and>
      (status e \<noteq> status d \<longleftrightarrow>
         status d \<noteq> None \<and> playlist_index d \<noteq> None \<and> playlist_size d \<noteq> None)) \<and>
   (let s = exec acts (init_manager n q) in
      j < n \<and> (\<forall>it. pc s \<noteq> M_index j it) \<longrightarrow>
        (\<forall>e. data_hook (workers s ! j) d = Inr e \<longrightarrow>
           data_index e = Some (last_index j (assigned s)) \<and>
           (\<forall>u. w_url (workers s ! j) = Some u \<longrightarrow>
              (\<exists>it. last_item j (assigned s) = Some it \<and> url it = u \<and>
                 data_index e = Some (index it)))))"
proof -
  define s where "s = exec acts (init_manager n q)"
  have hook: "data_index e = Some (w_index v)" if "data_hook v d = Inr e" for v e
    using that by (auto simp: data_hook_def worker_talk_to_gui_def split: option.splits)
  have idx: "idx_inv s" unfolding s_def by (rule idx_inv_exec [OF idx_inv_init])
  have held: "held_inv s" unfolding s_def by (rule held_inv_exec [OF held_inv_init])
  have len: "length (workers s) = n"
    using pool_inv_exec [OF pool_inv_init, of n acts q] by (simp add: pool_inv_def s_def)
  have run: "j < n \<and> (\<forall>it. pc s \<noteq> M_index j it) \<longrightarrow>
        (\<forall>e. data_hook (workers s ! j) d = Inr e \<longrightarrow>
           data_index e = Some (last_index j (assigned s)) \<and>
           (\<forall>u. w_url (workers s ! j) = Some u \<longrightarrow>
              (\<exists>it. last_item j (assigned s) = Some it \<and> url it = u \<and>
                 data_index e = Some (index it))))"
  proof (intro impI allI, elim conjE)
    fix e
    assume j: "j < n" and p: "\<forall>it. pc s \<noteq> M_index j it"
      and e: "data_hook (workers s ! j) d = Inr e"
    have w: "w_index (workers s ! j) = last_index j (assigned s)"
      using idx_inv_settled [OF idx] j len p by simp
    have a: "data_index e = Some (last_index j (assigned s))"
      using hook [OF e] w by simp
    have b: "\<exists>it. last_item j (assigned s) = Some it \<and> url it = u \<and>
        data_index e = Some (index it)" if "w_url (workers s ! j) = Some u" for u
    proof -
      from held that j len obtain it where "last_item j (assigned s) = Some it" "url it = u"
        by (auto simp: held_inv_def)
      then show ?thesis using a by (auto simp: last_index_item)
    qed
    show "data_index e = Some (last_index j (assigned s)) \<and>
           (\<forall>u. w_url (workers s ! j) = Some u \<longrightarrow>
              (\<exists>it. last_item j (assigned s) = Some it \<and> url it = u \<and>
                 data_index e = Some (index it)))"
      using a b by blast
  qed
  have fn: "(status d = None \<or> playlist_index d = None \<longrightarrow>
      data_hook w d = Inr (d\<lparr>data_index := Some (w_index w)\<rparr>)) \<and>
   (\<forall>st pidx psize.
      status d = Some st \<and> playlist_index d = Some pidx \<and> playlist_size d = Some psize \<longrightarrow>
      data_hook w d =
        Inr (d\<lparr>status := Some (st @ '' '' @ pidx @ ''/'' @ psize), data_index := Some (w_index w)\<rparr>)) \<and>
   (\<forall>e. data_hook w d = Inr e \<longrightarrow>
      data_index e = Some (w_index w) \<and>
      (status e \<noteq> status d \<longleftrightarrow>
         status d \<noteq> None \<and> playlist_index d \<noteq> None \<and> playlist_size d \<noteq> None))"
    by (auto simp: data_hook_def worker_talk_to_gui_def split: option.splits)
  show ?thesis
    unfolding Let_def s_def [symmetric] using fn run by (intro conjI) blast+
qed

theorem data_hook_enriches_witness:
  "pc (exec [Mgr, Mgr, Mgr, Mgr, Mgr, Mgr, Wrk 0, Wrk 0]
        (init_manager 1 [\<lparr>url = ''a'', index = 7\<rparr>])) = M_for 1 \<and>
   w_pc (workers (exec [Mgr, Mgr, Mgr, Mgr, Mgr, Mgr, Wrk 0, Wrk 0]
        (init_manager 1 [\<lparr>url = ''a'', index = 7\<rparr>])) ! 0) = W_download \<and>
   w_url (workers (exec [Mgr, Mgr, Mgr, Mgr, Mgr, Mgr, Wrk 0, Wrk 0]
        (init_manager 1 [\<lparr>url = ''a'', index = 7\<rparr>])) ! 0) = Some ''a'' \<and>
   last_item 0 (assigned (exec [Mgr, Mgr, Mgr, Mgr, Mgr, Mgr, Wrk 0, Wrk 0]
        (init_manager 1 [\<lparr>url = ''a'', index = 7\<rparr>]))) = Some \<lparr>url = ''a'', index = 7\<rparr> \<and>
   data_hook (workers (exec [Mgr, Mgr, Mgr, Mgr, Mgr, Mgr, Wrk 0, Wrk 0]
        (init_manager 1 [\<lparr>url = ''a'', index = 7\<rparr>])) ! 0)
     \<lparr>status = Some ''Downloading'', playlist_index = Some ''2'', playlist_size = Some ''5'',
      data_index = None\<rparr>
   = Inr \<lparr>status = Some ''Downloading 2/5'', playlist_index = Some ''2'',
          playlist_size = Some ''5'', data_index = Some 7\<rparr> \<and>
   data_hook (workers (exec [Mgr, Mgr, Mgr, Mgr, Mgr, Mgr, Wrk 0, Wrk 0]
        (init_manager 1 [\<lparr>url = ''a'', index = 7\<rparr>])) ! 0)
     \<lparr>status = Some ''Downloading'', playlist_index = None, playlist_size = Some ''5'',
      data_index = None\<rparr>
   = Inr \<lparr>status = Some ''Downloading'', playlist_index = None,
          playlist_size = Some ''5'', data_index = Some 7\<rparr>"
proof -
  have run: ?thesis by code_simp
  show ?thesis
    using run
      data_hook_enriches [where acts = "[Mgr, Mgr, Mgr, Mgr, Mgr, Mgr, Wrk 0, Wrk 0]"
        and n = 1 and j = 0 and q = "[\<lparr>url = ''a'', index = 7\<rparr>]"
        and w = "workers (exec [Mgr, Mgr, Mgr, Mgr, Mgr, Mgr, Wrk 0, Wrk 0]
        (init_manager 1 [\<lparr>url = ''a'', index = 7\<rparr>])) ! 0"
        and d = "\<lparr>status = Some ''Downloading'', playlist_index = Some ''2'', playlist_size = Some ''5'',
      data_index = None\<rparr>"]
      data_hook_enriches [where acts = "[Mgr, Mgr, Mgr, Mgr, Mgr, Mgr, Wrk 0, Wrk 0]"
        and n = 1 and j = 0 and q = "[\<lparr>url = ''a'', index = 7\<rparr>]"
        and w = "workers (exec [Mgr, Mgr, Mgr, Mgr, Mgr, Mgr, Wrk 0, Wrk 0]
        (init_manager 1 [\<lparr>url = ''a'', index = 7\<rparr>])) ! 0"
        and d = "\<lparr>status = Some ''Downloading'', playlist_index = None, playlist_size = Some ''5'',
      data_index = None\<rparr>"]
    by simp
qed

end
